theory Spec2Isabelle
  imports Main "HOL-Library.Sublist"
begin

section \<open>The segment tree of \<open>segment_tree_node.py\<close>\<close>

text \<open>
  The module holds two classes. \<open>SegmentTreeNode\<close> has the fields \<open>start\<close>, \<open>end\<close>,
  \<open>value\<close>, \<open>left\<close> and \<open>right\<close>; the two children are \<open>Optional\<close> and start as
  \<open>None\<close>. A node is owned by exactly one parent (the tree is built fresh by \<open>_build\<close>
  and no reference to a node ever escapes), so in-place mutation of a node is modelled
  by returning the new subtree. The field names carry the prefix \<open>n_\<close> because
  \<open>end\<close> and \<open>value\<close> are reserved words of the theory language.
\<close>

datatype SegmentTreeNode =
  Node (n_start: int) (n_end: int) (n_value: int)
       (n_left: "SegmentTreeNode option") (n_right: "SegmentTreeNode option")

record SegmentTree =
  root :: SegmentTreeNode

text \<open>
  The exceptions a call can end with. \<open>ValueError\<close> is the only one the module raises
  itself (the spec's \<open>InvalidArgument\<close>); \<open>IndexError\<close> is what a list subscript out of
  range raises, and \<open>RecursionError\<close> is what a recursion that never reaches its base
  case ends with.
\<close>

datatype error = ValueError | IndexError | RecursionError

subsection \<open>Python list subscript\<close>

text \<open>\<open>nums[i]\<close>: a negative index counts from the end; out of range raises.\<close>

definition subscript :: "int list \<Rightarrow> int \<Rightarrow> error + int" where
  "subscript nums i =
     (if 0 \<le> i \<and> i < int (length nums) then Inr (nums ! nat i)
      else if - int (length nums) \<le> i \<and> i < 0 then Inr (nums ! nat (int (length nums) + i))
      else Inl IndexError)"

subsection \<open>\<open>SegmentTree._build\<close>\<close>

text \<open>
  \<open>_build(nums, start, end)\<close>. With \<open>end < start\<close> the test \<open>start == end\<close> fails, and
  the first recursive call \<open>_build(nums, start, mid)\<close> has \<open>end \<le> mid < start\<close> again: the
  base case is never reached and Python ends the call with \<open>RecursionError\<close>. That is the
  second branch below; the other two are the two branches of the source.
\<close>

function build :: "int list \<Rightarrow> int \<Rightarrow> int \<Rightarrow> error + SegmentTreeNode" where
  "build nums start end' =
     (if start = end' then
        (case subscript nums start of
           Inl e \<Rightarrow> Inl e
         | Inr x \<Rightarrow> Inr (Node start end' x None None))
      else if end' < start then Inl RecursionError
      else
        (let mid = (start + end') div 2 in
         case build nums start mid of
           Inl e \<Rightarrow> Inl e
         | Inr l \<Rightarrow>
            (case build nums (mid + 1) end' of
               Inl e \<Rightarrow> Inl e
             | Inr r \<Rightarrow> Inr (Node start end' (n_value l + n_value r) (Some l) (Some r)))))"
  by pat_completeness auto
termination
  by (relation "measure (\<lambda>(nums, s, e). nat (e - s))") auto

declare build.simps [simp del]

subsection \<open>\<open>SegmentTree.__init__\<close>\<close>

definition SegmentTree_init :: "int list \<Rightarrow> error + SegmentTree" where
  "SegmentTree_init nums =
     (if nums = [] then Inl ValueError
      else case build nums 0 (int (length nums) - 1) of
             Inl e \<Rightarrow> Inl e
           | Inr n \<Rightarrow> Inr \<lparr>root = n\<rparr>)"

subsection \<open>\<open>SegmentTree._update\<close> and \<open>SegmentTree.update\<close>\<close>

text \<open>
  The last line of \<open>_update\<close>:
  \<open>node.value = (node.left.value if node.left else 0) + (node.right.value if node.right else 0)\<close>,
  on a node whose children are \<open>l\<close> and \<open>r\<close> by then.
\<close>

definition child_value :: "SegmentTreeNode option \<Rightarrow> int" where
  "child_value c = (case c of None \<Rightarrow> 0 | Some n \<Rightarrow> n_value n)"

definition recompute :: "int \<Rightarrow> int \<Rightarrow> SegmentTreeNode option \<Rightarrow> SegmentTreeNode option
    \<Rightarrow> SegmentTreeNode" where
  "recompute s e l r = Node s e (child_value l + child_value r) l r"

text \<open>
  \<open>_update(node, index, new_value)\<close>, returning the node as the call leaves it. The
  chained comparison \<open>node.start == node.end == index\<close> is the conjunction of its two
  halves. After it come the \<open>if\<close> (a left child, and \<open>index <= node.left.end\<close>), the
  \<open>elif\<close> (a right child) and the case where neither holds, each followed by the
  recomputation of \<open>node.value\<close>.
\<close>

fun priv_update :: "SegmentTreeNode \<Rightarrow> int \<Rightarrow> int \<Rightarrow> SegmentTreeNode" where
  "priv_update (Node s e v l r) index new_value =
     (if s = e \<and> e = index then Node s e new_value l r
      else
        (case l of
           Some ln \<Rightarrow>
             if index \<le> n_end ln then recompute s e (Some (priv_update ln index new_value)) r
             else (case r of
                     Some rn \<Rightarrow> recompute s e l (Some (priv_update rn index new_value))
                   | None \<Rightarrow> recompute s e l r)
         | None \<Rightarrow>
             (case r of
                Some rn \<Rightarrow> recompute s e l (Some (priv_update rn index new_value))
              | None \<Rightarrow> recompute s e l r)))"

text \<open>\<open>update\<close> has no \<open>raise\<close> and calls nothing that raises: it always returns.\<close>

definition update :: "SegmentTree \<Rightarrow> int \<Rightarrow> int \<Rightarrow> error + SegmentTree" where
  "update t index new_value = Inr (t\<lparr>root := priv_update (root t) index new_value\<rparr>)"

subsection \<open>\<open>SegmentTree._query\<close> and \<open>SegmentTree.query\<close>\<close>

fun priv_query :: "SegmentTreeNode option \<Rightarrow> int \<Rightarrow> int \<Rightarrow> int" where
  "priv_query None left right = 0"
| "priv_query (Some (Node s e v l r)) left right =
     (if e < left \<or> s > right then 0
      else if left \<le> s \<and> e \<le> right then v
      else priv_query l left right + priv_query r left right)"

definition query :: "SegmentTree \<Rightarrow> int \<Rightarrow> int \<Rightarrow> error + int" where
  "query t left right = Inr (priv_query (Some (root t)) left right)"

subsection \<open>Sequences of calls\<close>

text \<open>
  A program that constructs a tree and then calls \<open>update\<close> once for each pair
  \<open>(index, new_value)\<close> of a list, in order. An exception ends the program.
\<close>

fun updates :: "SegmentTree \<Rightarrow> (int \<times> int) list \<Rightarrow> error + SegmentTree" where
  "updates t [] = Inr t"
| "updates t ((index, new_value) # us) =
     (case update t index new_value of
        Inl e \<Rightarrow> Inl e
      | Inr t' \<Rightarrow> updates t' us)"

definition construct_then :: "int list \<Rightarrow> (int \<times> int) list \<Rightarrow> error + SegmentTree" where
  "construct_then nums us =
     (case SegmentTree_init nums of
        Inl e \<Rightarrow> Inl e
      | Inr t \<Rightarrow> updates t us)"

text \<open>The same program followed by one \<open>query\<close>, whose result is the program's.\<close>

definition construct_then_query ::
    "int list \<Rightarrow> (int \<times> int) list \<Rightarrow> int \<Rightarrow> int \<Rightarrow> error + int" where
  "construct_then_query nums us left right =
     (case construct_then nums us of
        Inl e \<Rightarrow> Inl e
      | Inr t \<Rightarrow> query t left right)"

text \<open>An \<open>update\<close> call is valid for a sequence of length \<open>n\<close> when its index is in \<open>[0, n-1]\<close>.\<close>

definition valid_updates :: "nat \<Rightarrow> (int \<times> int) list \<Rightarrow> bool" where
  "valid_updates n us = list_all (\<lambda>(i, v). 0 \<le> i \<and> i \<le> int n - 1) us"

subsection \<open>The reference array\<close>

text \<open>
  The current elements, in the words of the specification: the original values, each
  overridden by the latest update of its index. \<open>latest us k\<close> is the value of the last
  pair of \<open>us\<close> whose index is \<open>k\<close>.
\<close>

fun latest :: "(int \<times> int) list \<Rightarrow> int \<Rightarrow> int option" where
  "latest [] k = None"
| "latest ((i, v) # us) k =
     (case latest us k of
        Some w \<Rightarrow> Some w
      | None \<Rightarrow> if i = k then Some v else None)"

definition current :: "int list \<Rightarrow> (int \<times> int) list \<Rightarrow> int list" where
  "current nums us =
     map (\<lambda>k. case latest us (int k) of Some v \<Rightarrow> v | None \<Rightarrow> nums ! k) [0..<length nums]"

text \<open>The brute-force linear sum of the elements at the indices \<open>a, a+1, ..., b\<close>.\<close>

definition range_sum :: "int list \<Rightarrow> int \<Rightarrow> int \<Rightarrow> int" where
  "range_sum xs a b = sum_list (map (\<lambda>k. xs ! nat k) [a..b])"

subsection \<open>Invariants\<close>

text \<open>
  \<open>covers xs n\<close>: the subtree at \<open>n\<close> is the segment tree of the slice
  \<open>[n_start n, n_end n]\<close> of \<open>xs\<close>. A node has no child and holds the element of its
  single index, or it has both children, which split its range in two adjacent ranges,
  and holds the sum of their values.
\<close>

fun covers :: "int list \<Rightarrow> SegmentTreeNode \<Rightarrow> bool" where
  "covers xs (Node s e v l r) =
     (0 \<le> s \<and> s \<le> e \<and> e < int (length xs) \<and>
      (case l of
         None \<Rightarrow> (case r of None \<Rightarrow> s = e \<and> v = xs ! nat s | Some rn \<Rightarrow> False)
       | Some ln \<Rightarrow>
          (case r of
             None \<Rightarrow> False
           | Some rn \<Rightarrow>
               s < e \<and> n_start ln = s \<and> n_start rn = n_end ln + 1 \<and> n_end rn = e \<and>
               v = n_value ln + n_value rn \<and> covers xs ln \<and> covers xs rn)))"

text \<open>All the nodes of a tree, the root first.\<close>

fun nodes :: "SegmentTreeNode \<Rightarrow> SegmentTreeNode list" where
  "nodes (Node s e v l r) =
     Node s e v l r #
       (case l of None \<Rightarrow> [] | Some ln \<Rightarrow> nodes ln) @
       (case r of None \<Rightarrow> [] | Some rn \<Rightarrow> nodes rn)"

text \<open>
  The invariant of the data model at one node, over the elements \<open>xs\<close>: a leaf
  (\<open>start == end\<close>) holds the element at its index, an internal node has two children
  and holds the sum of their values.
\<close>

definition node_inv :: "int list \<Rightarrow> SegmentTreeNode \<Rightarrow> bool" where
  "node_inv xs n =
     (if n_start n = n_end n then
        0 \<le> n_start n \<and> n_start n < int (length xs) \<and> n_value n = xs ! nat (n_start n)
      else
        (case n_left n of
           None \<Rightarrow> False
         | Some l \<Rightarrow>
            (case n_right n of
               None \<Rightarrow> False
             | Some r \<Rightarrow> n_value n = n_value l + n_value r)))"

subsection \<open>Positions in the tree\<close>

datatype side = Left | Right

text \<open>The node reached from \<open>n\<close> by following the children named by a position.\<close>

fun node_at :: "SegmentTreeNode \<Rightarrow> side list \<Rightarrow> SegmentTreeNode option" where
  "node_at n [] = Some n"
| "node_at n (Left # p) = (case n_left n of None \<Rightarrow> None | Some c \<Rightarrow> node_at c p)"
| "node_at n (Right # p) = (case n_right n of None \<Rightarrow> None | Some c \<Rightarrow> node_at c p)"

text \<open>
  The position of the last node that \<open>_update(node, index, _)\<close> is called on: the
  descent of \<open>priv_update\<close>, with the same tests in the same order.
\<close>

fun update_path :: "SegmentTreeNode \<Rightarrow> int \<Rightarrow> side list" where
  "update_path (Node s e v l r) index =
     (if s = e \<and> e = index then []
      else
        (case l of
           Some ln \<Rightarrow>
             if index \<le> n_end ln then Left # update_path ln index
             else (case r of
                     Some rn \<Rightarrow> Right # update_path rn index
                   | None \<Rightarrow> [])
         | None \<Rightarrow>
             (case r of
                Some rn \<Rightarrow> Right # update_path rn index
              | None \<Rightarrow> [])))"

text \<open>A tree with every \<open>value\<close> field blanked: what is left is its shape and its ranges.\<close>

fun erase :: "SegmentTreeNode \<Rightarrow> SegmentTreeNode" where
  "erase (Node s e v l r) =
     Node s e 0 (case l of None \<Rightarrow> None | Some ln \<Rightarrow> Some (erase ln))
              (case r of None \<Rightarrow> None | Some rn \<Rightarrow> Some (erase rn))"

section \<open>Auxiliary facts\<close>

subsection \<open>Linear sums\<close>

lemma range_sum_empty: "b < a \<Longrightarrow> range_sum xs a b = 0"
  by (simp add: range_sum_def)

lemma range_sum_single: "range_sum xs a a = xs ! nat a"
  by (simp add: range_sum_def)

lemma range_sum_split:
  assumes "a \<le> m + 1" and "m \<le> b"
  shows "range_sum xs a b = range_sum xs a m + range_sum xs (m + 1) b"
proof (cases "m = b")
  case True
  then show ?thesis by (simp add: range_sum_empty)
next
  case False
  with assms have "[a..b] = [a..(m + 1) - 1] @ [m + 1..b]"
    by (intro upto_split1) auto
  then show ?thesis by (simp add: range_sum_def)
qed

lemma range_sum_clip:
  "range_sum xs a b = range_sum xs a (min b m) + range_sum xs (max a (m + 1)) b"
proof -
  consider "b < a" | "a \<le> b" "m < a" | "a \<le> b" "b \<le> m" | "a \<le> m" "m < b"
    by linarith
  then show ?thesis
  proof cases
    case 1
    then show ?thesis by (simp add: range_sum_empty)
  next
    case 2
    then have "max a (m + 1) = a" and "min b m < a" by auto
    then show ?thesis by (simp add: range_sum_empty)
  next
    case 3
    then have "min b m = b" and "b < max a (m + 1)" by auto
    then show ?thesis by (simp add: range_sum_empty)
  next
    case 4
    then have "min b m = m" and "max a (m + 1) = m + 1" by auto
    with 4 show ?thesis using range_sum_split [of a m b xs] by simp
  qed
qed

lemma range_sum_update_outside:
  assumes "0 \<le> i" and "0 \<le> a" and "i < a \<or> b < i"
  shows "range_sum (xs[nat i := v]) a b = range_sum xs a b"
  unfolding range_sum_def
  by (rule arg_cong [where f = sum_list], rule map_cong) (use assms in auto)

lemma range_sum_all: "range_sum xs 0 (int (length xs) - 1) = sum_list xs"
proof -
  have "map nat [0..int n - 1] = [0..<n]" for n
    by (induction n) (simp_all add: upto_rec2)
  then have "map (\<lambda>k. xs ! nat k) [0..int (length xs) - 1] = map ((!) xs) [0..<length xs]"
    by (simp add: map_map [symmetric, unfolded comp_def] del: map_map)
  then show ?thesis by (simp only: range_sum_def map_nth)
qed

subsection \<open>Construction and the invariant\<close>

lemma priv_update_range [simp]:
  "n_start (priv_update n i v) = n_start n" "n_end (priv_update n i v) = n_end n"
  by (cases n; simp add: recompute_def split: option.splits)+

lemma build_covers:
  "0 \<le> s \<Longrightarrow> s \<le> e \<Longrightarrow> e < int (length nums) \<Longrightarrow>
   \<exists>n. build nums s e = Inr n \<and> covers nums n \<and> n_start n = s \<and> n_end n = e"
proof (induction nums s e rule: build.induct)
  case (1 nums s e)
  show ?case
  proof (cases "s = e")
    case True
    with "1.prems" show ?thesis
      by (simp add: build.simps [of nums e e] subscript_def)
  next
    case False
    define mid where "mid = (s + e) div 2"
    from False "1.prems" have m: "s \<le> mid" "mid < e" by (auto simp: mid_def)
    from "1.IH"(1) [OF False _ mid_def] m "1.prems"
    obtain l where l: "build nums s mid = Inr l" "covers nums l" "n_start l = s" "n_end l = mid"
      by auto
    from "1.IH"(2) [OF False _ mid_def l(1)] m "1.prems"
    obtain r where r: "build nums (mid + 1) e = Inr r" "covers nums r" "n_start r = mid + 1" "n_end r = e"
      by auto
    from False "1.prems" m l r show ?thesis
      by (simp add: build.simps [of nums s e] mid_def [symmetric] Let_def)
  qed
qed

lemma covers_value: "covers xs n \<Longrightarrow> n_value n = range_sum xs (n_start n) (n_end n)"
proof (induction xs n rule: covers.induct)
  case (1 xs s e v l r)
  show ?case
  proof (cases l)
    case None
    with "1.prems" show ?thesis by (auto simp: range_sum_single split: option.splits)
  next
    case (Some ln)
    with "1.prems" obtain rn where rn: "r = Some rn" by (auto split: option.splits)
    from "1.prems" Some rn have c: "covers xs ln" "covers xs rn" 
      and s: "n_start ln = s" "n_start rn = n_end ln + 1" "n_end rn = e" "v = n_value ln + n_value rn" by auto
    from c(1) have "s \<le> n_end ln" using s(1) by (cases ln) auto
    moreover from c(2) have "n_end ln + 1 \<le> e" using s by (cases rn) auto
    ultimately have "range_sum xs s e = range_sum xs s (n_end ln) + range_sum xs (n_end ln + 1) e"
      by (intro range_sum_split) auto
    with "1.IH"(1) [OF Some rn c(1)] "1.IH"(2) [OF Some rn c(2)] s show ?thesis by simp
  qed
qed

lemma covers_range: "covers xs n \<Longrightarrow> 0 \<le> n_start n \<and> n_start n \<le> n_end n \<and> n_end n < int (length xs)"
  by (cases n) simp

subsection \<open>Point update keeps the invariant\<close>

lemma covers_update_outside:
  "covers xs n \<Longrightarrow> 0 \<le> i \<Longrightarrow> i < n_start n \<or> n_end n < i \<Longrightarrow> covers (xs[nat i := v]) n"
proof (induction xs n rule: covers.induct)
  case (1 xs s e w l r)
  show ?case
  proof (cases l)
    case None
    with "1.prems" show ?thesis by (auto split: option.splits)
  next
    case (Some ln)
    with "1.prems" obtain rn where rn: "r = Some rn" by (auto split: option.splits)
    from "1.prems" Some rn have c: "covers xs ln" "covers xs rn"
      and s: "n_start ln = s" "n_start rn = n_end ln + 1" "n_end rn = e" by auto
    from covers_range [OF c(1)] covers_range [OF c(2)] s "1.prems"(3)
    have o: "i < n_start ln \<or> n_end ln < i" "i < n_start rn \<or> n_end rn < i" by auto
    from "1.IH"(1) [OF Some rn c(1) "1.prems"(2) o(1)] "1.IH"(2) [OF Some rn c(2) "1.prems"(2) o(2)]
      "1.prems"(1) Some rn
    show ?thesis by simp
  qed
qed

lemma covers_update:
  "covers xs n \<Longrightarrow> n_start n \<le> i \<Longrightarrow> i \<le> n_end n \<Longrightarrow>
   covers (xs[nat i := v]) (priv_update n i v)"
proof (induction xs n rule: covers.induct)
  case (1 xs s e w l r)
  show ?case
  proof (cases l)
    case None
    with "1.prems" show ?thesis by (auto split: option.splits)
  next
    case (Some ln)
    with "1.prems" obtain rn where rn: "r = Some rn" by (auto split: option.splits)
    from "1.prems" Some rn have c: "covers xs ln" "covers xs rn"
      and s: "n_start ln = s" "n_start rn = n_end ln + 1" "n_end rn = e" "s < e"
        "w = n_value ln + n_value rn" "0 \<le> s" "e < int (length xs)" by auto
    note rl = covers_range [OF c(1)] and rr = covers_range [OF c(2)]
    from "1.prems" s have i0: "0 \<le> i" by simp
    show ?thesis
    proof (cases "i \<le> n_end ln")
      case True
      from "1.prems" s have "n_start ln \<le> i" by simp
      from "1.IH"(1) [OF Some rn c(1) this True]
      have "covers (xs[nat i := v]) (priv_update ln i v)" .
      moreover have "covers (xs[nat i := v]) rn"
        using c(2) s True i0 by (intro covers_update_outside) auto
      ultimately show ?thesis
        using Some rn True s by (simp add: recompute_def child_value_def)
    next
      case False
      from "1.prems" s have "i \<le> n_end rn" by simp
      moreover from False s have "n_start rn \<le> i" by simp
      ultimately have "covers (xs[nat i := v]) (priv_update rn i v)"
        using "1.IH"(2) [OF Some rn c(2)] by simp
      moreover have "covers (xs[nat i := v]) ln"
        using c(1) s False i0 by (intro covers_update_outside) auto
      ultimately show ?thesis
        using Some rn False s by (simp add: recompute_def child_value_def)
    qed
  qed
qed

subsection \<open>Range query on a tree with the invariant\<close>

lemma query_covers:
  "covers xs n \<Longrightarrow>
   priv_query (Some n) left right = range_sum xs (max left (n_start n)) (min right (n_end n))"
proof (induction xs n rule: covers.induct)
  case (1 xs s e w l r)
  note v = covers_value [OF "1.prems"]
  consider "e < left \<or> right < s" | "left \<le> s" "e \<le> right" 
    | "\<not> (e < left \<or> right < s)" "\<not> (left \<le> s \<and> e \<le> right)" by blast
  then show ?case
  proof cases
    case 1
    then have "min right e < max left s" by auto
    with 1 show ?thesis by (auto simp: range_sum_empty)
  next
    case 2
    then have "max left s = s" "min right e = e" by auto
    moreover from 2 "1.prems" have "\<not> (e < left \<or> right < s)" by auto
    ultimately show ?thesis using 2 v by simp
  next
    case 3
    from 3 "1.prems" have "s \<noteq> e" by auto
    with "1.prems" obtain ln rn where lr: "l = Some ln" "r = Some rn"
      by (auto split: option.splits)
    from "1.prems" lr have c: "covers xs ln" "covers xs rn"
      and s: "n_start ln = s" "n_start rn = n_end ln + 1" "n_end rn = e" by auto
    note rl = covers_range [OF c(1)] and rr = covers_range [OF c(2)]
    have "priv_query (Some (Node s e w l r)) left right =
          priv_query (Some ln) left right + priv_query (Some rn) left right"
      using 3 lr by auto
    also have "\<dots> = range_sum xs (max left s) (min right (n_end ln)) +
                    range_sum xs (max left (n_end ln + 1)) (min right e)"
      using "1.IH"(1) [OF lr c(1)] "1.IH"(2) [OF lr c(2)] s by simp
    also have "min right (n_end ln) = min (min right e) (n_end ln)"
      using rl rr s by auto
    also have "max left (n_end ln + 1) = max (max left s) (n_end ln + 1)"
      using rl rr s by auto
    also have "range_sum xs (max left s) (min (min right e) (n_end ln)) +
               range_sum xs (max (max left s) (n_end ln + 1)) (min right e) =
               range_sum xs (max left s) (min right e)"
      by (rule range_sum_clip [symmetric])
    finally show ?thesis by simp
  qed
qed

subsection \<open>Trees reached by construction and valid updates\<close>

lemma latest_snoc: "latest (us @ [(i, v)]) k = (if i = k then Some v else latest us k)"
  by (induction us) (auto split: option.splits)

lemma length_current [simp]: "length (current nums us) = length nums"
  by (simp add: current_def)

lemma current_Nil [simp]: "current nums [] = nums"
  by (simp add: current_def map_nth)

lemma current_snoc:
  "0 \<le> i \<Longrightarrow> current nums (us @ [(i, v)]) = (current nums us)[nat i := v]"
  by (rule nth_equalityI) (auto simp: current_def latest_snoc nth_list_update)

lemma updates_snoc:
  "updates t (us @ [(i, v)]) =
     (case updates t us of Inl e \<Rightarrow> Inl e | Inr t' \<Rightarrow> update t' i v)"
  by (induction t us rule: updates.induct) (auto simp: update_def)

lemma valid_updates_snoc:
  "valid_updates n (us @ [(i, v)]) \<longleftrightarrow> valid_updates n us \<and> 0 \<le> i \<and> i \<le> int n - 1"
  by (auto simp: valid_updates_def)

lemma reachable:
  assumes "nums \<noteq> []"
  shows "valid_updates (length nums) us \<Longrightarrow>
    \<exists>t. construct_then nums us = Inr t \<and> covers (current nums us) (root t) \<and>
        n_start (root t) = 0 \<and> n_end (root t) = int (length nums) - 1"
proof (induction us rule: rev_induct)
  case Nil
  from assms have "0 \<le> int (length nums) - 1" "int (length nums) - 1 < int (length nums)"
    by (cases nums; simp)+
  from build_covers [where s = 0 and e = "int (length nums) - 1" and nums = nums] this assms
  show ?case
    by (auto simp: construct_then_def SegmentTree_init_def)
next
  case (snoc u us)
  obtain i v where u: "u = (i, v)" by (cases u)
  from snoc.prems u have val: "valid_updates (length nums) us" "0 \<le> i" "i \<le> int (length nums) - 1"
    by (simp_all add: valid_updates_snoc)
  from snoc.IH [OF val(1)] obtain t where t: "construct_then nums us = Inr t"
    "covers (current nums us) (root t)" "n_start (root t) = 0"
    "n_end (root t) = int (length nums) - 1" by blast
  from t(1) assms have "construct_then nums (us @ [u]) = update t i v"
    by (auto simp: construct_then_def updates_snoc u split: sum.splits)
  moreover have "covers (current nums (us @ [u])) (priv_update (root t) i v)"
    unfolding u current_snoc [OF val(2)]
    using t val by (intro covers_update) auto
  ultimately show ?case using t by (auto simp: update_def)
qed

lemma construct_then_Nil: "construct_then nums [] = SegmentTree_init nums"
  by (simp add: construct_then_def split: sum.splits)

subsection \<open>The invariant at every node\<close>

lemma covers_node_inv: "covers xs n \<Longrightarrow> list_all (node_inv xs) (nodes n)"
proof (induction xs n rule: covers.induct)
  case (1 xs s e v l r)
  show ?case
  proof (cases l)
    case None
    with "1.prems" show ?thesis by (auto simp: node_inv_def split: option.splits)
  next
    case (Some ln)
    with "1.prems" obtain rn where rn: "r = Some rn" by (auto split: option.splits)
    from "1.prems" Some rn have c: "covers xs ln" "covers xs rn" by auto
    from "1.IH"(1) [OF Some rn c(1)] "1.IH"(2) [OF Some rn c(2)] "1.prems" Some rn
    show ?thesis by (auto simp: node_inv_def)
  qed
qed

subsection \<open>What a point update leaves as it was\<close>

lemma priv_update_idem: "priv_update (priv_update n i v) i v = priv_update n i v"
  by (induction n i v rule: priv_update.induct)
     (auto simp: recompute_def child_value_def split: option.splits)

lemma erase_priv_update: "erase (priv_update n i v) = erase n"
  by (induction n i v rule: priv_update.induct)
     (auto simp: recompute_def split: option.splits)

lemma off_path_unchanged:
  "\<not> prefix p (update_path n i) \<Longrightarrow> node_at (priv_update n i v) p = node_at n p"
proof (induction n i v arbitrary: p rule: priv_update.induct)
  case (1 s e w l r i v)
  from "1.prems" obtain d q where p: "p = d # q" by (cases p) auto
  show ?case
  proof (cases "s = e \<and> e = i")
    case True
    then show ?thesis by (cases d) (simp_all add: p)
  next
    case stay: False
    show ?thesis
    proof (cases l)
      case None
      show ?thesis
      proof (cases r)
        case None
        with \<open>l = None\<close> stay show ?thesis by (cases d) (auto simp: p recompute_def)
      next
        case (Some rn)
        have "node_at (priv_update rn i v) q = node_at rn q" if "d = Right"
          using "1.IH"(1) [OF stay \<open>l = None\<close> Some, of q] "1.prems" that stay
          by (simp add: p \<open>l = None\<close> Some)
        with \<open>l = None\<close> Some stay show ?thesis by (cases d) (auto simp: p recompute_def)
      qed
    next
      case (Some ln)
      show ?thesis
      proof (cases "i \<le> n_end ln")
        case True
        have "node_at (priv_update ln i v) q = node_at ln q" if "d = Left"
          using "1.IH"(2) [OF stay Some True, of q] "1.prems" that stay
          by (simp add: p Some True)
        with Some True stay show ?thesis by (cases d) (auto simp: p recompute_def)
      next
        case False
        show ?thesis
        proof (cases r)
          case None
          with Some False stay show ?thesis by (cases d) (auto simp: p recompute_def)
        next
          case (Some rn)
          have "node_at (priv_update rn i v) q = node_at rn q" if "d = Right"
            using "1.IH"(3) [OF stay \<open>l = Some ln\<close> False Some, of q] "1.prems" that stay
            by (simp add: p \<open>l = Some ln\<close> False Some)
          with \<open>l = Some ln\<close> False Some stay show ?thesis
            by (cases d) (auto simp: p recompute_def)
        qed
      qed
    qed
  qed
qed

lemma path_reaches_leaf:
  "covers xs n \<Longrightarrow> n_start n \<le> i \<Longrightarrow> i \<le> n_end n \<Longrightarrow>
   \<exists>leaf. node_at n (update_path n i) = Some leaf \<and> n_start leaf = i \<and> n_end leaf = i \<and>
     n_left leaf = None \<and> n_right leaf = None"
proof (induction xs n rule: covers.induct)
  case (1 xs s e w l r)
  show ?case
  proof (cases l)
    case None
    with "1.prems" show ?thesis by (auto split: option.splits)
  next
    case (Some ln)
    with "1.prems" obtain rn where rn: "r = Some rn" by (auto split: option.splits)
    from "1.prems" Some rn have c: "covers xs ln" "covers xs rn"
      and s: "n_start ln = s" "n_start rn = n_end ln + 1" "n_end rn = e" "s < e" by auto
    show ?thesis
    proof (cases "i \<le> n_end ln")
      case True
      with "1.IH"(1) [OF Some rn c(1)] "1.prems" s Some rn show ?thesis by auto
    next
      case False
      with "1.IH"(2) [OF Some rn c(2)] "1.prems" s Some rn show ?thesis by auto
    qed
  qed
qed

section \<open>The properties of the specification\<close>

text \<open>
  C1: for a tree constructed from a non-empty sequence and after any sequence of valid
  \<open>update\<close> calls, \<open>query(a, b)\<close> with \<open>0 \<le> a \<le> b \<le> n-1\<close> returns the sum of the
  current elements at the indices \<open>a\<close> to \<open>b\<close> inclusive.
\<close>

theorem query_after_updates:
  assumes "nums \<noteq> []" and "valid_updates (length nums) us"
    and "0 \<le> a" and "a \<le> b" and "b \<le> int (length nums) - 1"
  shows "construct_then_query nums us a b = Inr (range_sum (current nums us) a b)"
proof -
  from reachable [OF assms(1,2)] obtain t where t: "construct_then nums us = Inr t"
    "covers (current nums us) (root t)" "n_start (root t) = 0"
    "n_end (root t) = int (length nums) - 1" by blast
  from assms(3-5) t(3,4) have "max a (n_start (root t)) = a" "min b (n_end (root t)) = b"
    by auto
  with query_covers [OF t(2), of a b] t(1) show ?thesis
    by (simp add: construct_then_query_def query_def)
qed

theorem query_after_updates_witness:
  "[1, 3, 5] \<noteq> ([] :: int list) \<and> valid_updates (length [1, 3, 5 :: int]) [(1, 2)] \<and>
   (0 :: int) \<le> 0 \<and> (0 :: int) \<le> 2 \<and> (2 :: int) \<le> int (length [1, 3, 5 :: int]) - 1 \<and>
   construct_then_query [1, 3, 5] [(1, 2)] 0 2 = Inr (range_sum (current [1, 3, 5] [(1, 2)]) 0 2) \<and>
   range_sum (current [1, 3, 5] [(1, 2)]) 0 2 = 8"
proof -
  have h1: "[1, 3, 5] \<noteq> ([] :: int list)" by simp
  have h2: "valid_updates (length [1, 3, 5 :: int]) [(1, 2)]" by (simp add: valid_updates_def)
  have h3: "(0 :: int) \<le> 0" and h4: "(0 :: int) \<le> 2"
    and h5: "(2 :: int) \<le> int (length [1, 3, 5 :: int]) - 1" by simp_all
  have e: "range_sum (current [1, 3, 5] [(1, 2)]) 0 2 = 8" by code_simp
  from query_after_updates [OF h1 h2 h3 h4 h5] h1 h2 h3 h4 h5 e show ?thesis by (intro conjI)
qed

text \<open>
  C2: immediately after the construction from a non-empty sequence, the value of the root
  is the sum of all the elements.
\<close>

theorem root_value_after_init:
  assumes "nums \<noteq> []"
  shows "\<exists>t. SegmentTree_init nums = Inr t \<and> n_value (root t) = sum_list nums"
proof -
  have "valid_updates (length nums) []" by (simp add: valid_updates_def)
  from reachable [OF assms this] obtain t where t: "SegmentTree_init nums = Inr t"
    "covers nums (root t)" "n_start (root t) = 0" "n_end (root t) = int (length nums) - 1"
    by (auto simp: construct_then_Nil)
  from covers_value [OF t(2)] t(3,4) have "n_value (root t) = sum_list nums"
    by (simp add: range_sum_all)
  with t(1) show ?thesis by blast
qed

theorem root_value_after_init_witness:
  "[1, 2, 3] \<noteq> ([] :: int list) \<and>
   (\<exists>t. SegmentTree_init [1, 2, 3] = Inr t \<and> n_value (root t) = sum_list [1, 2, 3]) \<and>
   sum_list [1, 2, 3 :: int] = 6"
proof -
  have h: "[1, 2, 3] \<noteq> ([] :: int list)" by simp
  have e: "sum_list [1, 2, 3 :: int] = 6" by simp
  from root_value_after_init [OF h] h e show ?thesis by (intro conjI)
qed

text \<open>
  C3: after the construction and after any sequence of valid \<open>update\<close> calls, every
  internal node holds the sum of the values of its two children, every leaf holds the
  current element at its index, and the root holds the sum of all the current elements.
\<close>

theorem invariant_after_updates:
  assumes "nums \<noteq> []" and "valid_updates (length nums) us"
  shows "\<exists>t. construct_then nums us = Inr t \<and>
             list_all (node_inv (current nums us)) (nodes (root t)) \<and>
             n_value (root t) = sum_list (current nums us)"
proof -
  from reachable [OF assms] obtain t where t: "construct_then nums us = Inr t"
    "covers (current nums us) (root t)" "n_start (root t) = 0"
    "n_end (root t) = int (length nums) - 1" by blast
  from covers_value [OF t(2)] t(3,4) range_sum_all [of "current nums us"]
  have "n_value (root t) = sum_list (current nums us)" by simp
  with t(1) covers_node_inv [OF t(2)] show ?thesis by blast
qed

theorem invariant_after_updates_witness:
  "[1, 2, 3] \<noteq> ([] :: int list) \<and> valid_updates (length [1, 2, 3 :: int]) [(1, 5)] \<and>
   (\<exists>t. construct_then [1, 2, 3] [(1, 5)] = Inr t \<and>
        list_all (node_inv (current [1, 2, 3] [(1, 5)])) (nodes (root t)) \<and>
        n_value (root t) = sum_list (current [1, 2, 3] [(1, 5)])) \<and>
   sum_list (current [1, 2, 3] [(1, 5)]) = 9"
proof -
  have h1: "[1, 2, 3] \<noteq> ([] :: int list)" by simp
  have h2: "valid_updates (length [1, 2, 3 :: int]) [(1, 5)]" by (simp add: valid_updates_def)
  have e: "sum_list (current [1, 2, 3] [(1, 5)]) = 9" by code_simp
  from invariant_after_updates [OF h1 h2] h1 h2 e show ?thesis by (intro conjI)
qed

text \<open>
  C4, as the code has it: \<open>update\<close> validates nothing. With an index outside \<open>[0, n-1]\<close>
  it does not fail: the call returns, and the tree it leaves has the shape and the ranges
  of the tree it was given.
\<close>

theorem update_out_of_range_returns:
  assumes "nums \<noteq> []" and "valid_updates (length nums) us"
    and "construct_then nums us = Inr t"
    and "index < 0 \<or> int (length nums) - 1 < index"
  shows "\<exists>t'. update t index new_value = Inr t' \<and> erase (root t') = erase (root t)"
  by (simp add: update_def erase_priv_update)

theorem update_out_of_range_returns_witness:
  "[1, 2, 3] \<noteq> ([] :: int list) \<and> valid_updates (length [1, 2, 3 :: int]) [] \<and>
   construct_then [1, 2, 3] [] =
     Inr \<lparr>root = Node 0 2 6
       (Some (Node 0 1 3 (Some (Node 0 0 1 None None)) (Some (Node 1 1 2 None None))))
       (Some (Node 2 2 3 None None))\<rparr> \<and>
   ((-1 :: int) < 0 \<or> int (length [1, 2, 3 :: int]) - 1 < -1) \<and>
   (\<exists>t'. update \<lparr>root = Node 0 2 6
       (Some (Node 0 1 3 (Some (Node 0 0 1 None None)) (Some (Node 1 1 2 None None))))
       (Some (Node 2 2 3 None None))\<rparr> (-1) 7 = Inr t' \<and>
     erase (root t') = erase (root \<lparr>root = Node 0 2 6
       (Some (Node 0 1 3 (Some (Node 0 0 1 None None)) (Some (Node 1 1 2 None None))))
       (Some (Node 2 2 3 None None))\<rparr>))"
proof -
  have h1: "[1, 2, 3] \<noteq> ([] :: int list)" by simp
  have h2: "valid_updates (length [1, 2, 3 :: int]) []" by (simp add: valid_updates_def)
  have h3: "construct_then [1, 2, 3] [] =
     Inr \<lparr>root = Node 0 2 6
       (Some (Node 0 1 3 (Some (Node 0 0 1 None None)) (Some (Node 1 1 2 None None))))
       (Some (Node 2 2 3 None None))\<rparr>" by code_simp
  have h4: "(-1 :: int) < 0 \<or> int (length [1, 2, 3 :: int]) - 1 < -1" by simp
  from update_out_of_range_returns [OF h1 h2 h3 h4, of 7] h1 h2 h3 h4 show ?thesis
    by (intro conjI)
qed

theorem update_out_of_range_counterexample:
  "SegmentTree_init [4] = Inr \<lparr>root = Node 0 0 4 None None\<rparr> \<and>
   update \<lparr>root = Node 0 0 4 None None\<rparr> 1 9 = Inr \<lparr>root = Node 0 0 0 None None\<rparr> \<and>
   update \<lparr>root = Node 0 0 4 None None\<rparr> 1 9 \<noteq> Inl ValueError"
  by code_simp

text \<open>
  C5, at \<open>SegmentTree([1, 2, 3])\<close> followed by \<open>update(5, 7)\<close>: the call returns, and the
  leaf of index 2, which held 3, holds 0.
\<close>

theorem update_out_of_range_zeroes_a_leaf:
  "SegmentTree_init [1, 2, 3] =
     Inr \<lparr>root = Node 0 2 6
       (Some (Node 0 1 3 (Some (Node 0 0 1 None None)) (Some (Node 1 1 2 None None))))
       (Some (Node 2 2 3 None None))\<rparr> \<and>
   construct_then [1, 2, 3] [(5, 7)] =
     Inr \<lparr>root = Node 0 2 3
       (Some (Node 0 1 3 (Some (Node 0 0 1 None None)) (Some (Node 1 1 2 None None))))
       (Some (Node 2 2 0 None None))\<rparr> \<and>
   construct_then_query [1, 2, 3] [(5, 7)] 2 2 = Inr 0"
  by code_simp

text \<open>
  C6: the construction fails with \<open>ValueError\<close> (the specification's \<open>InvalidArgument\<close>) on
  the empty sequence, and succeeds on every other one, with a tree whose root has the
  range \<open>[0, n-1]\<close>.
\<close>

theorem init_fails_only_on_empty:
  "SegmentTree_init [] = Inl ValueError \<and>
   (nums \<noteq> [] \<longrightarrow>
     (\<exists>t. SegmentTree_init nums = Inr t \<and> n_start (root t) = 0 \<and>
          n_end (root t) = int (length nums) - 1))"
proof (intro conjI impI)
  show "SegmentTree_init [] = Inl ValueError" by (simp add: SegmentTree_init_def)
next
  assume ne: "nums \<noteq> []"
  have "valid_updates (length nums) []" by (simp add: valid_updates_def)
  from reachable [OF ne this] show "\<exists>t. SegmentTree_init nums = Inr t \<and>
      n_start (root t) = 0 \<and> n_end (root t) = int (length nums) - 1"
    by (auto simp: construct_then_Nil)
qed

theorem init_fails_only_on_empty_witness:
  "[1, 3, 5, 7, 9] \<noteq> ([] :: int list) \<and>
   (\<exists>t. SegmentTree_init [1, 3, 5, 7, 9] = Inr t \<and> n_start (root t) = 0 \<and>
        n_end (root t) = int (length [1, 3, 5, 7, 9 :: int]) - 1)"
proof -
  have h: "[1, 3, 5, 7, 9] \<noteq> ([] :: int list)" by simp
  from init_fails_only_on_empty [of "[1, 3, 5, 7, 9]"] h
  have "\<exists>t. SegmentTree_init [1, 3, 5, 7, 9] = Inr t \<and> n_start (root t) = 0 \<and>
        n_end (root t) = int (length [1, 3, 5, 7, 9 :: int]) - 1" by blast
  with h show ?thesis by (intro conjI)
qed

text \<open>
  C7, as the code has it: a range with \<open>left > right\<close> is not rejected. \<open>query\<close> returns
  \<open>0\<close> for it.
\<close>

theorem query_reversed_range_returns_zero:
  assumes "nums \<noteq> []" and "valid_updates (length nums) us" and "right < left"
  shows "construct_then_query nums us left right = Inr 0"
proof -
  from reachable [OF assms(1,2)] obtain t where t: "construct_then nums us = Inr t"
    "covers (current nums us) (root t)" by blast
  have "range_sum (current nums us) (max left (n_start (root t)))
          (min right (n_end (root t))) = 0"
    using assms(3) by (intro range_sum_empty) auto
  with query_covers [OF t(2), of left right] t(1) show ?thesis
    by (simp add: construct_then_query_def query_def)
qed

theorem query_reversed_range_returns_zero_witness:
  "[1, 3, 5] \<noteq> ([] :: int list) \<and> valid_updates (length [1, 3, 5 :: int]) [(1, 2)] \<and>
   (0 :: int) < 2 \<and> construct_then_query [1, 3, 5] [(1, 2)] 2 0 = Inr 0"
proof -
  have h1: "[1, 3, 5] \<noteq> ([] :: int list)" by simp
  have h2: "valid_updates (length [1, 3, 5 :: int]) [(1, 2)]" by (simp add: valid_updates_def)
  have h3: "(0 :: int) < 2" by simp
  from query_reversed_range_returns_zero [OF h1 h2 h3] h1 h2 h3 show ?thesis
    by (intro conjI)
qed

theorem query_reversed_range_counterexample:
  "construct_then_query [1, 2, 3] [] 2 0 = Inr 0 \<and>
   construct_then_query [1, 2, 3] [] 2 0 \<noteq> Inl ValueError"
  by code_simp

text \<open>
  C8: for all integers \<open>left \<le> right\<close>, inside the range of the tree or not, \<open>query\<close>
  returns the sum of the current elements at the indices that \<open>[left, right]\<close> shares with
  \<open>[0, n-1]\<close>, and so \<open>0\<close> when it shares none.
\<close>

theorem query_clips_range:
  assumes "nums \<noteq> []" and "valid_updates (length nums) us" and "left \<le> right"
  shows "construct_then_query nums us left right =
           Inr (range_sum (current nums us) (max left 0) (min right (int (length nums) - 1))) \<and>
         (right < 0 \<or> int (length nums) - 1 < left \<longrightarrow>
            construct_then_query nums us left right = Inr 0)"
proof -
  from reachable [OF assms(1,2)] obtain t where t: "construct_then nums us = Inr t"
    "covers (current nums us) (root t)" "n_start (root t) = 0"
    "n_end (root t) = int (length nums) - 1" by blast
  from query_covers [OF t(2), of left right] t(1,3,4)
  have q: "construct_then_query nums us left right =
      Inr (range_sum (current nums us) (max left 0) (min right (int (length nums) - 1)))"
    by (simp add: construct_then_query_def query_def)
  have "range_sum (current nums us) (max left 0) (min right (int (length nums) - 1)) = 0"
    if "right < 0 \<or> int (length nums) - 1 < left"
    using that assms(3) by (intro range_sum_empty) auto
  with q show ?thesis by simp
qed

theorem query_clips_range_witness:
  "[1, 3, 5, 7, 9] \<noteq> ([] :: int list) \<and>
   valid_updates (length [1, 3, 5, 7, 9 :: int]) [(4, 1)] \<and> (3 :: int) \<le> 20 \<and>
   construct_then_query [1, 3, 5, 7, 9] [(4, 1)] 3 20 =
     Inr (range_sum (current [1, 3, 5, 7, 9] [(4, 1)]) (max 3 0)
           (min 20 (int (length [1, 3, 5, 7, 9 :: int]) - 1))) \<and>
   range_sum (current [1, 3, 5, 7, 9] [(4, 1)]) (max 3 0)
     (min 20 (int (length [1, 3, 5, 7, 9 :: int]) - 1)) = 8 \<and>
   (5 :: int) \<le> 20 \<and> ((20 :: int) < 0 \<or> int (length [1, 3, 5, 7, 9 :: int]) - 1 < 5) \<and>
   construct_then_query [1, 3, 5, 7, 9] [(4, 1)] 5 20 = Inr 0"
proof -
  have h1: "[1, 3, 5, 7, 9] \<noteq> ([] :: int list)" by simp
  have h2: "valid_updates (length [1, 3, 5, 7, 9 :: int]) [(4, 1)]"
    by (simp add: valid_updates_def)
  have h3: "(3 :: int) \<le> 20" and h4: "(5 :: int) \<le> 20" by simp_all
  have h5: "(20 :: int) < 0 \<or> int (length [1, 3, 5, 7, 9 :: int]) - 1 < 5" by simp
  have e: "range_sum (current [1, 3, 5, 7, 9] [(4, 1)]) (max 3 0)
     (min 20 (int (length [1, 3, 5, 7, 9 :: int]) - 1)) = 8" by code_simp
  note inside = query_clips_range [OF h1 h2 h3, THEN conjunct1]
  note outside = query_clips_range [OF h1 h2 h4, THEN conjunct2, rule_format, OF h5]
  from inside outside h1 h2 h3 h4 h5 e show ?thesis by (intro conjI)
qed

text \<open>
  C9: calling \<open>update(i, v)\<close> twice in succession leaves the tree as calling it once
  does, node for node and value for value. It holds for every tree and every index.
\<close>

theorem update_twice_is_update_once:
  "updates t [(i, v), (i, v)] = updates t [(i, v)]"
  by (simp add: update_def priv_update_idem)

text \<open>
  C10: for a valid index \<open>i\<close>, the descent of \<open>update(i, v)\<close> ends at the leaf of range
  \<open>[i, i]\<close>; only \<open>value\<close> fields change (the shape and the ranges stay); and the subtree
  at every position that is not on the path of the descent is the one that was there
  before. \<open>update\<close> yields the tree and no other value.
\<close>

theorem update_frame:
  assumes "nums \<noteq> []" and "valid_updates (length nums) us"
    and "construct_then nums us = Inr t"
    and "0 \<le> i" and "i \<le> int (length nums) - 1"
  shows "\<exists>t'. update t i v = Inr t' \<and>
           (\<exists>leaf. node_at (root t) (update_path (root t) i) = Some leaf \<and>
                   n_start leaf = i \<and> n_end leaf = i \<and>
                   n_left leaf = None \<and> n_right leaf = None) \<and>
           erase (root t') = erase (root t) \<and>
           (\<forall>p. \<not> prefix p (update_path (root t) i) \<longrightarrow>
                node_at (root t') p = node_at (root t) p)"
proof -
  from reachable [OF assms(1,2)] assms(3) have t: "covers (current nums us) (root t)"
    "n_start (root t) = 0" "n_end (root t) = int (length nums) - 1" by auto
  from t assms(4,5) have "n_start (root t) \<le> i" "i \<le> n_end (root t)" by simp_all
  from path_reaches_leaf [OF t(1) this] show ?thesis
    by (simp add: update_def erase_priv_update off_path_unchanged)
qed

theorem update_frame_witness:
  "[1, 3, 5] \<noteq> ([] :: int list) \<and> valid_updates (length [1, 3, 5 :: int]) [] \<and>
   construct_then [1, 3, 5] [] =
     Inr \<lparr>root = Node 0 2 9
       (Some (Node 0 1 4 (Some (Node 0 0 1 None None)) (Some (Node 1 1 3 None None))))
       (Some (Node 2 2 5 None None))\<rparr> \<and>
   (0 :: int) \<le> 1 \<and> (1 :: int) \<le> int (length [1, 3, 5 :: int]) - 1 \<and>
   update_path (Node 0 2 9
       (Some (Node 0 1 4 (Some (Node 0 0 1 None None)) (Some (Node 1 1 3 None None))))
       (Some (Node 2 2 5 None None))) 1 = [Left, Right] \<and>
   \<not> prefix [Right] [Left, Right] \<and>
   (\<exists>t'. update \<lparr>root = Node 0 2 9
       (Some (Node 0 1 4 (Some (Node 0 0 1 None None)) (Some (Node 1 1 3 None None))))
       (Some (Node 2 2 5 None None))\<rparr> 1 2 = Inr t' \<and>
     node_at (root t') [Right] = Some (Node 2 2 5 None None))"
proof -
  let ?n = "Node 0 2 9
       (Some (Node 0 1 4 (Some (Node 0 0 1 None None)) (Some (Node 1 1 3 None None))))
       (Some (Node 2 2 5 None None))"
  have h1: "[1, 3, 5] \<noteq> ([] :: int list)" by simp
  have h2: "valid_updates (length [1, 3, 5 :: int]) []" by (simp add: valid_updates_def)
  have h3: "construct_then [1, 3, 5] [] = Inr \<lparr>root = ?n\<rparr>" by code_simp
  have h4: "(0 :: int) \<le> 1" and h5: "(1 :: int) \<le> int (length [1, 3, 5 :: int]) - 1"
    by simp_all
  have p: "update_path ?n 1 = [Left, Right]" by code_simp
  have np: "\<not> prefix [Right] [Left, Right]" by simp
  from update_frame [OF h1 h2 h3 h4 h5, of 2] obtain t' where
    t': "update \<lparr>root = ?n\<rparr> 1 2 = Inr t'"
    and off: "\<forall>p. \<not> prefix p (update_path (root \<lparr>root = ?n\<rparr>) 1) \<longrightarrow>
                node_at (root t') p = node_at (root \<lparr>root = ?n\<rparr>) p" by blast
  from off [rule_format, of "[Right]"] p np
  have "node_at (root t') [Right] = node_at ?n [Right]" by simp
  then have "node_at (root t') [Right] = Some (Node 2 2 5 None None)" by simp
  with t' have "\<exists>t'. update \<lparr>root = ?n\<rparr> 1 2 = Inr t' \<and>
     node_at (root t') [Right] = Some (Node 2 2 5 None None)" by blast
  with h1 h2 h3 h4 h5 p np show ?thesis by (intro conjI)
qed

end
